theory Spec2Isabelle
  imports Complex_Main
begin

section \<open>The college catalog and the suggestions derived from it\<close>

text \<open>
  The catalog is the JSON document \<^verbatim>\<open>colleges.json\<close>, imported as \<^verbatim>\<open>collegesData\<close>;
  the component reads its member \<^verbatim>\<open>tnea_colleges\<close>. The document itself is data, so the
  catalog is a parameter of every function below. A member of the object
  \<^verbatim>\<open>cutoffs_2024\<close> is any JSON value: the guard of the matcher tests its truthiness and
  its \<^verbatim>\<open>typeof\<close>, so the model keeps the kinds of JSON values apart. A JSON number is a
  finite double; it is modelled by the real number it denotes (JSON has neither NaN nor
  an infinity, and \<^verbatim>\<open>-0\<close> is \<open>0\<close>).
\<close>

datatype jsvalue = JNumber real | JString string | JBool bool | JNull | JObject

record branch =
  branch_name :: string
  cutoffs_2024 :: "string \<rightharpoonup> jsvalue"

record college =
  college_name :: string
  address :: string
  branches :: "branch list"

text \<open>The interface \<^verbatim>\<open>CollegeSuggestion\<close>.\<close>

record CollegeSuggestion =
  sug_college_name :: string
  sug_branch_name :: string
  cutoff :: real
  sug_address :: string

text \<open>JavaScript's conversion to a boolean, as the \<^verbatim>\<open>&&\<close> of the guard applies it.\<close>

fun truthy :: "jsvalue \<Rightarrow> bool" where
  "truthy (JNumber r) = (r \<noteq> 0)"
| "truthy (JString s) = (s \<noteq> [])"
| "truthy (JBool b) = b"
| "truthy JNull = False"
| "truthy JObject = True"

text \<open>
  The guard \<^verbatim>\<open>cutoff && typeof cutoff === 'number' && marks >= cutoff\<close>. The lookup
  \<^verbatim>\<open>branch.cutoffs_2024[category]\<close> of a key the object does not have is
  \<^verbatim>\<open>undefined\<close>, which is falsy (a key found on the prototype instead, such as
  \<^verbatim>\<open>constructor\<close>, is not a number, and is rejected all the same). The result is the
  cutoff to push, if the guard holds.
\<close>

fun guard :: "real \<Rightarrow> jsvalue option \<Rightarrow> real option" where
  "guard marks None = None"
| "guard marks (Some (JNumber c)) =
     (if truthy (JNumber c) \<and> marks \<ge> c then Some c else None)"
| "guard marks (Some v) = None"

text \<open>The body of the inner \<^verbatim>\<open>forEach\<close>: one branch, pushing onto \<^verbatim>\<open>suggestions\<close>.\<close>

definition visit_branch ::
  "real \<Rightarrow> string \<Rightarrow> college \<Rightarrow> CollegeSuggestion list \<Rightarrow> branch \<Rightarrow> CollegeSuggestion list" where
  "visit_branch marks category c suggestions b =
     (case guard marks (cutoffs_2024 b category) of
        None \<Rightarrow> suggestions
      | Some k \<Rightarrow> suggestions @
          [\<lparr>sug_college_name = college_name c, sug_branch_name = branch_name b,
            cutoff = k, sug_address = address c\<rparr>])"

text \<open>The two nested \<^verbatim>\<open>forEach\<close> loops, starting from the empty array.\<close>

definition visit_college ::
  "real \<Rightarrow> string \<Rightarrow> CollegeSuggestion list \<Rightarrow> college \<Rightarrow> CollegeSuggestion list" where
  "visit_college marks category suggestions c =
     foldl (visit_branch marks category c) suggestions (branches c)"

definition collect :: "college list \<Rightarrow> real \<Rightarrow> string \<Rightarrow> CollegeSuggestion list" where
  "collect tnea_colleges marks category = foldl (visit_college marks category) [] tnea_colleges"

text \<open>
  \<^verbatim>\<open>.sort((a, b) => b.cutoff - a.cutoff)\<close>: the sort of an array is stable, so with this
  comparator it is the stable sort by decreasing cutoff. It is written as the insertion
  sort that puts an element in front of the first one it does not have to follow.
\<close>

definition compareFn :: "CollegeSuggestion \<Rightarrow> CollegeSuggestion \<Rightarrow> real" where
  "compareFn a b = cutoff b - cutoff a"

fun insert_sorted :: "CollegeSuggestion \<Rightarrow> CollegeSuggestion list \<Rightarrow> CollegeSuggestion list" where
  "insert_sorted x [] = [x]"
| "insert_sorted x (y # ys) =
     (if compareFn x y \<le> 0 then x # y # ys else y # insert_sorted x ys)"

definition sort_suggestions :: "CollegeSuggestion list \<Rightarrow> CollegeSuggestion list" where
  "sort_suggestions xs = foldr insert_sorted xs []"

text \<open>
  \<^verbatim>\<open>findCollegesByMarks\<close>: collect, sort, \<^verbatim>\<open>.slice(0, 10)\<close>. The score is a real
  number as well: the one caller passes the value of a decimal numeral, never NaN or an
  infinity.
\<close>

definition findCollegesByMarks :: "college list \<Rightarrow> real \<Rightarrow> string \<Rightarrow> CollegeSuggestion list" where
  "findCollegesByMarks tnea_colleges marks category =
     take 10 (sort_suggestions (collect tnea_colleges marks category))"

section \<open>Strings\<close>

text \<open>
  A JavaScript string is a sequence of UTF-16 code units. The model takes the texts whose
  code units are below 256, one \<^typ>\<open>char\<close> each. On these \<^verbatim>\<open>toLowerCase\<close> maps
  \<^verbatim>\<open>A\<close>-\<^verbatim>\<open>Z\<close> to \<^verbatim>\<open>a\<close>-\<^verbatim>\<open>z\<close>, the capital letters of Latin-1 (192 to
  222, without the multiplication sign 215) to the code unit 32 above, and leaves every
  other one alone.
\<close>

definition upper_letters :: string where
  "upper_letters = ''ABCDEFGHIJKLMNOPQRSTUVWXYZ''"

definition lower_letters :: string where
  "lower_letters = ''abcdefghijklmnopqrstuvwxyz''"

definition lower_char :: "char \<Rightarrow> char" where
  "lower_char c =
     (case map_of (zip upper_letters lower_letters) c of
        Some l \<Rightarrow> l
      | None \<Rightarrow>
          (let n = of_char c :: nat
           in if 192 \<le> n \<and> n \<le> 222 \<and> n \<noteq> 215 then char_of (n + 32) else c))"

definition toLowerCase :: "string \<Rightarrow> string" where
  "toLowerCase s = map lower_char s"

text \<open>
  \<^verbatim>\<open>toUpperCase\<close> on the letters \<^verbatim>\<open>a\<close>-\<^verbatim>\<open>z\<close>. The component applies it to the
  capture of the category expression only, which is made of these letters and their
  capitals. The same function is the canonical form that a case-insensitive expression
  compares characters by: without the \<^verbatim>\<open>u\<close> flag no character outside ASCII is
  canonicalized to an ASCII one, so a pattern letter matches itself and its other case,
  and nothing else.
\<close>

definition upper_char :: "char \<Rightarrow> char" where
  "upper_char c =
     (case map_of (zip lower_letters upper_letters) c of Some u \<Rightarrow> u | None \<Rightarrow> c)"

definition toUpperCase :: "string \<Rightarrow> string" where
  "toUpperCase s = map upper_char s"

definition substring :: "string \<Rightarrow> nat \<Rightarrow> nat \<Rightarrow> string" where
  "substring s i e = take (e - i) (drop i s)"

text \<open>\<^verbatim>\<open>s.includes(t)\<close>: \<open>t\<close> starts at some position of \<open>s\<close>.\<close>

definition starts_with :: "string \<Rightarrow> string \<Rightarrow> bool" where
  "starts_with s t = (take (length t) s = t)"

fun str_includes :: "string \<Rightarrow> string \<Rightarrow> bool" where
  "str_includes [] t = (t = [])"
| "str_includes (c # cs) t = (starts_with (c # cs) t \<or> str_includes cs t)"

section \<open>The two regular expressions\<close>

text \<open>
  \<^verbatim>\<open>\d\<close> and \<^verbatim>\<open>\w\<close>; \<^verbatim>\<open>\b\<close> holds at a position where exactly one of the
  characters before and after it is a word character (a missing character is not one).
\<close>

definition is_digit :: "char \<Rightarrow> bool" where
  "is_digit c = (c \<in> set ''0123456789'')"

definition is_word_char :: "char \<Rightarrow> bool" where
  "is_word_char c =
     (c \<in> set ''abcdefghijklmnopqrstuvwxyzABCDEFGHIJKLMNOPQRSTUVWXYZ0123456789_'')"

definition is_boundary :: "string \<Rightarrow> nat \<Rightarrow> bool" where
  "is_boundary s i =
     ((0 < i \<and> i \<le> length s \<and> is_word_char (s ! (i - 1))) \<noteq>
      (i < length s \<and> is_word_char (s ! i)))"

text \<open>
  The expressions the component uses, as syntax trees: the empty expression, a literal
  character, \<^verbatim>\<open>\d\<close>, \<^verbatim>\<open>\b\<close>, sequence, alternative, the bounded greedy repetition
  \<^verbatim>\<open>{lo,hi}\<close> and the greedy \<^verbatim>\<open>*\<close>. Both expressions put one capturing group around everything between
  the two \<^verbatim>\<open>\b\<close>, which are of width zero: element 1 of the match is the matched text.
\<close>

datatype rx = Eps | Lit char | Digit | WordB | Seq rx rx | Alt rx rx | Rep nat nat rx | Star rx

text \<open>
  A backtracking matcher tries the ways to match in a fixed order and takes the first
  that lets the rest of the expression match. \<open>rx_ends\<close> lists the end positions of the
  matches of an expression that start at \<open>i\<close>, in that order: an earlier alternative
  before a later one, one more iteration of a greedy repetition before stopping. An
  iteration that may be skipped and matches the empty text is rejected, as the
  language's \<^verbatim>\<open>RepeatMatcher\<close> does.
\<close>

fun rep :: "(nat \<Rightarrow> nat list) \<Rightarrow> nat \<Rightarrow> nat \<Rightarrow> nat \<Rightarrow> nat list" where
  "rep f lo 0 i = [i]"
| "rep f lo (Suc hi) i =
     concat (map (\<lambda>j. if lo = 0 \<and> j = i then [] else rep f (lo - 1) hi j) (f i)) @
     (if lo = 0 then [i] else [])"

text \<open>
  In \<open>star f n i\<close> the bound \<open>n\<close> is the length of the text. An iteration ends at a
  position from \<open>i\<close> to \<open>n\<close>, so the test \<open>i < j \<and> j \<le> n\<close> rejects the empty
  iteration and nothing else.
\<close>

function star :: "(nat \<Rightarrow> nat list) \<Rightarrow> nat \<Rightarrow> nat \<Rightarrow> nat list" where
  "star f n i = concat (map (\<lambda>j. if i < j \<and> j \<le> n then star f n j else []) (f i)) @ [i]"
  by pat_completeness auto
termination
  by (relation "measure (\<lambda>(f, n, i). n - i)") auto

primrec rx_ends :: "bool \<Rightarrow> rx \<Rightarrow> string \<Rightarrow> nat \<Rightarrow> nat list" where
  "rx_ends ic Eps s i = [i]"
| "rx_ends ic (Lit c) s i =
     (if i < length s \<and> (if ic then upper_char (s ! i) = upper_char c else s ! i = c)
      then [Suc i] else [])"
| "rx_ends ic Digit s i = (if i < length s \<and> is_digit (s ! i) then [Suc i] else [])"
| "rx_ends ic WordB s i = (if is_boundary s i then [i] else [])"
| "rx_ends ic (Seq a b) s i = concat (map (rx_ends ic b s) (rx_ends ic a s i))"
| "rx_ends ic (Alt a b) s i = rx_ends ic a s i @ rx_ends ic b s i"
| "rx_ends ic (Rep lo hi a) s i = rep (rx_ends ic a s) lo hi i"
| "rx_ends ic (Star a) s i = star (rx_ends ic a s) (length s) i"

text \<open>
  \<^verbatim>\<open>s.match(r)\<close> for an expression without the \<^verbatim>\<open>g\<close> flag: the first match at the
  least start position that has one, or \<^verbatim>\<open>null\<close>. The result is element 1 of the match.
\<close>

definition match_at :: "bool \<Rightarrow> rx \<Rightarrow> string \<Rightarrow> nat \<Rightarrow> string option" where
  "match_at ic r s i = (case rx_ends ic r s i of [] \<Rightarrow> None | e # _ \<Rightarrow> Some (substring s i e))"

fun first_some :: "'a option list \<Rightarrow> 'a option" where
  "first_some [] = None"
| "first_some (None # xs) = first_some xs"
| "first_some (Some x # xs) = Some x"

definition js_match :: "bool \<Rightarrow> rx \<Rightarrow> string \<Rightarrow> string option" where
  "js_match ic r s = first_some (map (match_at ic r s) [0..<Suc (length s)])"

primrec lits :: "string \<Rightarrow> rx" where
  "lits [] = Eps"
| "lits (c # cs) = Seq (Lit c) (lits cs)"

text \<open>
  \<^verbatim>\<open>/\b(\d{1,3}(?:\.\d+)?)\b/\<close>. The part \<^verbatim>\<open>\.\d+\<close> is \<open>fraction_rx\<close>, where
  \<^verbatim>\<open>\d+\<close> is \<^verbatim>\<open>\d\<close> followed by \<^verbatim>\<open>\d*\<close>, and the part \<^verbatim>\<open>(?:\.\d+)?\b\<close>
  after the one to three digits is \<open>marks_tail_rx\<close>.
\<close>

definition fraction_rx :: rx where
  "fraction_rx = Seq (Lit (CHR ''.'')) (Seq Digit (Star Digit))"

definition marks_tail_rx :: rx where
  "marks_tail_rx = Seq (Rep 0 1 fraction_rx) WordB"

definition marks_rx :: rx where
  "marks_rx = Seq WordB (Seq (Rep 1 3 Digit) marks_tail_rx)"

text \<open>
  \<^verbatim>\<open>/\b(oc|bc|bcm|mbc|sc|sca|st)\b/i\<close>; the alternatives between the parentheses are
  \<open>category_alts_rx\<close>.
\<close>

definition category_alts_rx :: rx where
  "category_alts_rx =
     Alt (lits ''oc'') (Alt (lits ''bc'') (Alt (lits ''bcm'') (Alt (lits ''mbc'')
       (Alt (lits ''sc'') (Alt (lits ''sca'') (lits ''st''))))))"

definition category_rx :: rx where
  "category_rx = Seq WordB (Seq category_alts_rx WordB)"

section \<open>The classifier\<close>

text \<open>
  \<^verbatim>\<open>parseFloat\<close> on a capture of the score expression: digits, then possibly a point
  and digits. There it is the number the decimal numeral denotes; the rounding of that
  number to a double is not modelled.
\<close>

definition digit_val :: "char \<Rightarrow> nat" where
  "digit_val c = of_char c - 48"

definition nat_of_digits :: "string \<Rightarrow> nat" where
  "nat_of_digits ds = foldl (\<lambda>a d. 10 * a + digit_val d) 0 ds"

definition parseFloat :: "string \<Rightarrow> real" where
  "parseFloat t =
     (let ip = takeWhile is_digit t; rest = dropWhile is_digit t
      in real (nat_of_digits ip) +
         (case rest of
            [] \<Rightarrow> 0
          | c # fs \<Rightarrow>
              if c = CHR ''.''
              then (let fd = takeWhile is_digit fs in real (nat_of_digits fd) / 10 ^ length fd)
              else 0))"

text \<open>
  A reply. The content of the two replies of the score rule is a template literal; it is
  kept as the sequence of its fixed texts and interpolated values, so that the conversion
  of a number to its decimal text (a matter of doubles) stays outside the model. The
  member \<^verbatim>\<open>suggestions\<close> is optional.
\<close>

datatype piece = Txt string | Num real

record reply =
  content :: "piece list"
  suggestions :: "CollegeSuggestion list option"

definition nl :: string where
  "nl = [CHR 0x0A]"

definition apostrophe :: string where
  "apostrophe = [CHR 0x27]"

definition greeting_reply :: reply where
  "greeting_reply = \<lparr>content = [Txt
     (''Hello! Great to meet you! I'm Zudora, your AI college counselor. '' @
      ''I specialize in helping students find the perfect engineering colleges '' @
      ''based on their TNEA cutoff marks and category. How can I assist you today?'')],
     suggestions = None\<rparr>"

definition wellbeing_reply :: reply where
  "wellbeing_reply = \<lparr>content = [Txt
     (''I'm doing wonderful, thank you for asking! I'm here and ready to help you '' @
      ''navigate the college selection process. Whether you need college suggestions, '' @
      ''cutoff information, or guidance about engineering branches, I'm here to help!'')],
     suggestions = None\<rparr>"

definition found_reply :: "real \<Rightarrow> string \<Rightarrow> CollegeSuggestion list \<Rightarrow> reply" where
  "found_reply marks category sugs = \<lparr>content =
     [Txt ''Great! Based on your cutoff marks of '', Num marks, Txt '' and '', Txt category,
      Txt '' category, I found '', Num (real (length sugs)),
      Txt ('' excellent college options for you. Here are the top colleges '' @
           ''where you have a good chance of admission:'')],
     suggestions = Some sugs\<rparr>"

definition not_found_reply :: "real \<Rightarrow> string \<Rightarrow> reply" where
  "not_found_reply marks category = \<lparr>content =
     [Txt ''I understand you have '', Num marks, Txt '' marks in '', Txt category,
      Txt ('' category. Unfortunately, I couldn't find colleges that match these '' @
           ''specific criteria in my current database. You might want to consider:'' @ nl @
           ''          '' @ nl @
           ''          1. Checking if there are any updates to cutoffs'' @ nl @
           ''          2. Looking at colleges with slightly lower requirements'' @ nl @
           ''          3. Exploring different engineering branches'' @ nl @
           ''          '' @ nl @
           ''          Would you like me to help you with a different marks range '' @
           ''or category?'')],
     suggestions = None\<rparr>"

definition prompt_reply :: reply where
  "prompt_reply = \<lparr>content = [Txt
     (''I'd be happy to help you with college suggestions! To provide you with the '' @
      ''most relevant recommendations, I'll need to know:'' @ nl @ nl @
      ''1. Your cutoff marks (TNEA score)'' @ nl @
      ''2. Your category (OC, BC, BCM, MBC, SC, SCA, or ST)'' @ nl @ nl @
      ''For example, you can say: 'I scored 185 marks in BC category' or '' @
      apostrophe @ ''My cutoff is 170 and I'm in MBC category.'' @ apostrophe)],
     suggestions = None\<rparr>"

text \<open>The bullet of the default reply, U+2022, is written as the three bytes of its UTF-8 form.\<close>

definition bullet :: string where
  "bullet = [CHR 0xE2, CHR 0x80, CHR 0xA2]"

definition default_reply :: reply where
  "default_reply = \<lparr>content = [Txt
     (''I'm here to help you find the best engineering colleges based on your TNEA '' @
      ''cutoff marks and category. You can ask me things like:'' @ nl @ nl @
      bullet @ '' 'I scored 185 marks in BC category'' @ apostrophe @ nl @
      bullet @ '' 'What colleges can I get with 175 cutoff in OC?'' @ apostrophe @ nl @
      bullet @ '' 'Show me CSE colleges for MBC category'' @ apostrophe @ nl @ nl @
      ''Feel free to share your marks and category, and I'll provide personalized '' @
      ''college suggestions!'')],
     suggestions = None\<rparr>"

text \<open>
  Reading element 1 of the result of \<^verbatim>\<open>match\<close> throws a \<^verbatim>\<open>TypeError\<close> when the result
  is \<^verbatim>\<open>null\<close>.
\<close>

datatype error = TypeError

fun capture :: "string option \<Rightarrow> error + string" where
  "capture None = Inl TypeError"
| "capture (Some m) = Inr m"

text \<open>\<^verbatim>\<open>generateAIResponse\<close>, rule by rule in the order of the source.\<close>

definition generateAIResponse :: "college list \<Rightarrow> string \<Rightarrow> error + reply" where
  "generateAIResponse tnea_colleges userInput =
     (let input = toLowerCase userInput
      in if str_includes input ''hi'' \<or> str_includes input ''hello'' \<or> str_includes input ''hey''
         then Inr greeting_reply
         else if str_includes input ''how are you'' \<or> str_includes input ''how do you do''
         then Inr wellbeing_reply
         else
           let marksMatch = js_match False marks_rx input;
               categoryMatch = js_match True category_rx input
           in if marksMatch \<noteq> None \<and> categoryMatch \<noteq> None
              then (case capture marksMatch of
                      Inl e \<Rightarrow> Inl e
                    | Inr m \<Rightarrow>
                        (case capture categoryMatch of
                           Inl e \<Rightarrow> Inl e
                         | Inr c \<Rightarrow>
                             let marks = parseFloat m;
                                 category = toUpperCase c;
                                 sugs = findCollegesByMarks tnea_colleges marks category
                             in if length sugs > 0
                                then Inr (found_reply marks category sugs)
                                else Inr (not_found_reply marks category)))
              else if str_includes input ''college'' \<or> str_includes input ''engineering'' \<or>
                      str_includes input ''cutoff''
              then Inr prompt_reply
              else Inr default_reply)"

section \<open>The notions of the specification\<close>

text \<open>
  The definitions of this section, named \<open>spec_\<close>, do not come from the source: they
  say what the specification means by a token, read off the text position by position.
  The facts below relate them to what the regular expressions of the source match.
\<close>

text \<open>
  A text contains \<open>t\<close> as a token when \<open>t\<close> occurs in it between two word boundaries.
\<close>

definition spec_has_token :: "string \<Rightarrow> string \<Rightarrow> bool" where
  "spec_has_token s t =
     list_ex (\<lambda>i. i + length t \<le> length s \<and> substring s i (i + length t) = t \<and>
                is_boundary s i \<and> is_boundary s (i + length t))
       [0..<Suc (length s)]"

text \<open>
  A numeric token from \<open>i\<close> to \<open>e\<close>: one to three digits, up to \<open>j\<close>, then nothing more
  or a point and at least one digit, between two word boundaries.
\<close>

definition spec_all_digits :: "string \<Rightarrow> nat \<Rightarrow> nat \<Rightarrow> bool" where
  "spec_all_digits s a b = list_all (\<lambda>k. k < length s \<and> is_digit (s ! k)) [a..<b]"

definition spec_score_token :: "string \<Rightarrow> nat \<Rightarrow> nat \<Rightarrow> bool" where
  "spec_score_token s i e =
     (is_boundary s i \<and> is_boundary s e \<and>
      list_ex (\<lambda>j. spec_all_digits s i j \<and>
                 (j = e \<or>
                  (Suc j < e \<and> j < length s \<and> s ! j = CHR ''.'' \<and> spec_all_digits s (Suc j) e)))
        [i + 1, i + 2, i + 3])"

text \<open>A category token: one of the seven codes, in any casing, between two word boundaries.\<close>

definition spec_category_codes :: "string list" where
  "spec_category_codes = [''OC'', ''BC'', ''BCM'', ''MBC'', ''SC'', ''SCA'', ''ST'']"

definition spec_category_token :: "string \<Rightarrow> nat \<Rightarrow> nat \<Rightarrow> bool" where
  "spec_category_token s i e =
     (i \<le> e \<and> e \<le> length s \<and> is_boundary s i \<and> is_boundary s e \<and>
      toUpperCase (substring s i e) \<in> set spec_category_codes)"

text \<open>
  The first token of a kind: the one that starts first and, of those that start there,
  the longest.
\<close>

definition spec_first_token :: "(nat \<Rightarrow> nat \<Rightarrow> bool) \<Rightarrow> string \<Rightarrow> string option" where
  "spec_first_token P s =
     (case concat (map (\<lambda>i. map (\<lambda>e. (i, e)) (filter (P i) (rev [i..<Suc (length s)])))
             [0..<Suc (length s)]) of
        [] \<Rightarrow> None
      | (i, e) # _ \<Rightarrow> Some (substring s i e))"

section \<open>Catalogs for the examples\<close>

definition example_catalog :: "college list" where
  "example_catalog =
     [\<lparr>college_name = ''College A'', address = ''Chennai'',
       branches =
         [\<lparr>branch_name = ''CSE'',
           cutoffs_2024 = [''OC'' \<mapsto> JNumber 190, ''BC'' \<mapsto> JNumber 180]\<rparr>,
          \<lparr>branch_name = ''ECE'',
           cutoffs_2024 = [''OC'' \<mapsto> JNumber 0, ''BC'' \<mapsto> JNumber 185, ''SC'' \<mapsto> JNull]\<rparr>]\<rparr>,
      \<lparr>college_name = ''College B'', address = ''Madurai'',
       branches =
         [\<lparr>branch_name = ''MECH'',
           cutoffs_2024 = [''OC'' \<mapsto> JNumber 171.5, ''BC'' \<mapsto> JNumber 185]\<rparr>]\<rparr>]"

definition zero_catalog :: "college list" where
  "zero_catalog =
     [\<lparr>college_name = ''College Z'', address = ''Salem'',
       branches = [\<lparr>branch_name = ''CIVIL'', cutoffs_2024 = [''OC'' \<mapsto> JNumber 0]\<rparr>]\<rparr>]"

definition long_catalog :: "college list" where
  "long_catalog =
     [\<lparr>college_name = ''College L'', address = ''Trichy'',
       branches = map (\<lambda>n. \<lparr>branch_name = ''B'', cutoffs_2024 = [''OC'' \<mapsto> JNumber (real n)]\<rparr>)
                      [1..<13]\<rparr>]"

section \<open>Facts about the matcher\<close>

lemma set_insert_sorted: "set (insert_sorted x ys) = insert x (set ys)"
  by (induction ys) auto

lemma set_sort_suggestions: "set (sort_suggestions xs) = set xs"
  unfolding sort_suggestions_def by (induction xs) (simp_all add: set_insert_sorted)

lemma length_insert_sorted: "length (insert_sorted x ys) = Suc (length ys)"
  by (induction ys) auto

lemma length_sort_suggestions: "length (sort_suggestions xs) = length xs"
  unfolding sort_suggestions_def by (induction xs) (simp_all add: length_insert_sorted)

lemma sorted_insert_sorted:
  "sorted_wrt (\<lambda>a b. cutoff a \<ge> cutoff b) ys \<Longrightarrow>
   sorted_wrt (\<lambda>a b. cutoff a \<ge> cutoff b) (insert_sorted x ys)"
  by (induction ys) (auto simp: set_insert_sorted compareFn_def)

lemma sorted_sort_suggestions:
  "sorted_wrt (\<lambda>a b. cutoff a \<ge> cutoff b) (sort_suggestions xs)"
  unfolding sort_suggestions_def by (induction xs) (simp_all add: sorted_insert_sorted)



lemma set_visit_branch:
  "set (visit_branch marks category c acc b) =
     set acc \<union> (case guard marks (cutoffs_2024 b category) of None \<Rightarrow> {}
       | Some k \<Rightarrow> {\<lparr>sug_college_name = college_name c, sug_branch_name = branch_name b,
            cutoff = k, sug_address = address c\<rparr>})"
  by (simp add: visit_branch_def split: option.splits)

lemma set_visit_branches:
  "set (foldl (visit_branch marks category c) acc bs) =
     set acc \<union> (\<Union>b\<in>set bs. case guard marks (cutoffs_2024 b category) of None \<Rightarrow> {}
       | Some k \<Rightarrow> {\<lparr>sug_college_name = college_name c, sug_branch_name = branch_name b,
            cutoff = k, sug_address = address c\<rparr>})"
  by (induction bs arbitrary: acc) (auto simp: set_visit_branch)

lemma set_visit_colleges:
  "set (foldl (visit_college marks category) acc cs) =
     set acc \<union> (\<Union>c\<in>set cs. \<Union>b\<in>set (branches c).
       case guard marks (cutoffs_2024 b category) of None \<Rightarrow> {}
       | Some k \<Rightarrow> {\<lparr>sug_college_name = college_name c, sug_branch_name = branch_name b,
            cutoff = k, sug_address = address c\<rparr>})"
  by (induction cs arbitrary: acc) (auto simp: visit_college_def set_visit_branches)

lemma set_collect:
  "set (collect cs marks category) =
     (\<Union>c\<in>set cs. \<Union>b\<in>set (branches c).
       case guard marks (cutoffs_2024 b category) of None \<Rightarrow> {}
       | Some k \<Rightarrow> {\<lparr>sug_college_name = college_name c, sug_branch_name = branch_name b,
            cutoff = k, sug_address = address c\<rparr>})"
  by (simp add: collect_def set_visit_colleges)

lemma guard_Some: "guard marks v = Some k \<longleftrightarrow> v = Some (JNumber k) \<and> k \<noteq> 0 \<and> k \<le> marks"
  by (cases "(marks, v)" rule: guard.cases) auto

lemma in_collect:
  "x \<in> set (collect cs marks category) \<longleftrightarrow>
     (\<exists>c\<in>set cs. \<exists>b\<in>set (branches c). \<exists>k.
        cutoffs_2024 b category = Some (JNumber k) \<and> k \<noteq> 0 \<and> k \<le> marks \<and>
        x = \<lparr>sug_college_name = college_name c, sug_branch_name = branch_name b,
             cutoff = k, sug_address = address c\<rparr>)"
proof
  assume "x \<in> set (collect cs marks category)"
  then obtain c b where cb: "c \<in> set cs" "b \<in> set (branches c)"
    and x: "x \<in> (case guard marks (cutoffs_2024 b category) of None \<Rightarrow> {}
       | Some k \<Rightarrow> {\<lparr>sug_college_name = college_name c, sug_branch_name = branch_name b,
            cutoff = k, sug_address = address c\<rparr>})"
    unfolding set_collect by blast
  from x obtain k where k: "guard marks (cutoffs_2024 b category) = Some k"
    and xk: "x = \<lparr>sug_college_name = college_name c, sug_branch_name = branch_name b,
            cutoff = k, sug_address = address c\<rparr>"
    by (cases "guard marks (cutoffs_2024 b category)") auto
  from k have "cutoffs_2024 b category = Some (JNumber k) \<and> k \<noteq> 0 \<and> k \<le> marks"
    by (simp add: guard_Some)
  with cb xk show "\<exists>c\<in>set cs. \<exists>b\<in>set (branches c). \<exists>k.
        cutoffs_2024 b category = Some (JNumber k) \<and> k \<noteq> 0 \<and> k \<le> marks \<and>
        x = \<lparr>sug_college_name = college_name c, sug_branch_name = branch_name b,
             cutoff = k, sug_address = address c\<rparr>"
    by blast
next
  assume "\<exists>c\<in>set cs. \<exists>b\<in>set (branches c). \<exists>k.
        cutoffs_2024 b category = Some (JNumber k) \<and> k \<noteq> 0 \<and> k \<le> marks \<and>
        x = \<lparr>sug_college_name = college_name c, sug_branch_name = branch_name b,
             cutoff = k, sug_address = address c\<rparr>"
  then obtain c b k where cb: "c \<in> set cs" "b \<in> set (branches c)"
    and k: "cutoffs_2024 b category = Some (JNumber k)" "k \<noteq> 0" "k \<le> marks"
    and xk: "x = \<lparr>sug_college_name = college_name c, sug_branch_name = branch_name b,
             cutoff = k, sug_address = address c\<rparr>"
    by blast
  from k have "guard marks (cutoffs_2024 b category) = Some k"
    by (simp add: guard_Some)
  with cb xk show "x \<in> set (collect cs marks category)"
    unfolding set_collect by force
qed

section \<open>Facts about the regular expressions\<close>

declare star.simps [simp del]

lemma is_digit_word: "is_digit c \<Longrightarrow> is_word_char c"
  by (auto simp: is_digit_def is_word_char_def)

lemma is_digit_not_point: "is_digit c \<Longrightarrow> c \<noteq> CHR ''.''"
  by (auto simp: is_digit_def)

lemma all_digits_iff:
  "spec_all_digits s a b \<longleftrightarrow> (\<forall>k. a \<le> k \<and> k < b \<longrightarrow> k < length s \<and> is_digit (s ! k))"
  by (auto simp: spec_all_digits_def list_all_iff)

lemma all_digits_refl: "spec_all_digits s a a"
  by (simp add: spec_all_digits_def)

lemma all_digits_Suc:
  "spec_all_digits s a (Suc b) \<longleftrightarrow> (a \<le> b \<longrightarrow> spec_all_digits s a b \<and> b < length s \<and> is_digit (s ! b))"
  unfolding all_digits_iff by (auto simp: less_Suc_eq)

lemma all_digits_first:
  assumes "a < b"
  shows "spec_all_digits s a b \<longleftrightarrow> a < length s \<and> is_digit (s ! a) \<and> spec_all_digits s (Suc a) b"
proof -
  have "(a \<le> k \<and> k < b) \<longleftrightarrow> (k = a \<or> (Suc a \<le> k \<and> k < b))" for k
    using assms by auto
  then show ?thesis
    unfolding all_digits_iff by auto
qed

lemma all_digits_le: "spec_all_digits s a b \<Longrightarrow> a < b \<Longrightarrow> b \<le> length s"
  unfolding all_digits_iff by (cases b) (auto simp: less_Suc_eq_le)

lemma star_digit_unfold:
  "star (\<lambda>a. if a < length s \<and> is_digit (s ! a) then [Suc a] else []) (length s) i =
     (if i < length s \<and> is_digit (s ! i)
      then star (\<lambda>a. if a < length s \<and> is_digit (s ! a) then [Suc a] else []) (length s) (Suc i)
      else []) @ [i]"
  by (subst star.simps) auto

lemma digits_from_stop:
  assumes "\<not> (i < length s \<and> is_digit (s ! i))"
  shows "{e. i \<le> e \<and> spec_all_digits s i e} = {i}"
proof -
  have "\<not> spec_all_digits s i e" if "i < e" for e
    using that assms by (auto simp: all_digits_first)
  then show ?thesis
    by (auto simp: all_digits_refl) (metis le_neq_implies_less)
qed

lemma digits_from_step:
  assumes "i < length s" "is_digit (s ! i)"
  shows "{e. i \<le> e \<and> spec_all_digits s i e} = insert i {e. Suc i \<le> e \<and> spec_all_digits s (Suc i) e}"
proof -
  have "spec_all_digits s i e \<longleftrightarrow> spec_all_digits s (Suc i) e" if "i < e" for e
    using that assms by (simp add: all_digits_first)
  then show ?thesis
    by (auto simp: all_digits_refl)
qed

lemma star_digit:
  "sorted_wrt (>) (star (\<lambda>a. if a < length s \<and> is_digit (s ! a) then [Suc a] else []) (length s) i) \<and>
   set (star (\<lambda>a. if a < length s \<and> is_digit (s ! a) then [Suc a] else []) (length s) i) =
     {e. i \<le> e \<and> spec_all_digits s i e}"
proof (induction "length s - i" arbitrary: i)
  case 0
  then have stop: "\<not> (i < length s \<and> is_digit (s ! i))" by simp
  show ?case
    by (subst (1 2) star_digit_unfold) (simp add: stop digits_from_stop)
next
  case (Suc k)
  then have k: "k = length s - Suc i" and lt: "i < length s" by simp_all
  show ?case
  proof (cases "is_digit (s ! i)")
    case True
    note IH = Suc.hyps(1) [OF k]
    show ?thesis
      apply (subst (1 2) star_digit_unfold)
      using IH True lt
      apply (simp add: digits_from_step sorted_wrt_append)
      done
  next
    case False
    show ?thesis
      by (subst (1 2) star_digit_unfold) (simp add: False digits_from_stop)
  qed
qed

lemma desc_unique:
  fixes xs ys :: "nat list"
  assumes "sorted_wrt (>) xs" "sorted_wrt (>) ys" "set xs = set ys"
  shows "xs = ys"
proof -
  have "sorted_wrt (<) (rev xs)" "sorted_wrt (<) (rev ys)"
    using assms by (simp_all add: sorted_wrt_rev)
  moreover have "set (rev ys) = set (rev xs)" using assms by simp
  ultimately have "rev ys = rev xs" by (rule strict_sorted_equal)
  then show ?thesis by simp
qed

lemma desc_filter_rev_upt: "sorted_wrt (>) (filter P (rev [a..<b]))"
  by (rule sorted_wrt_filter) (simp add: sorted_wrt_rev)

lemma ends_eq_filter:
  fixes xs :: "nat list"
  assumes "sorted_wrt (>) xs" and "\<And>e. e \<in> set xs \<longleftrightarrow> i \<le> e \<and> e \<le> n \<and> P e"
  shows "xs = filter P (rev [i..<Suc n])"
proof (rule desc_unique [OF assms(1) desc_filter_rev_upt])
  show "set xs = set (filter P (rev [i..<Suc n]))"
  proof (rule set_eqI)
    fix e
    have "e \<in> set (filter P (rev [i..<Suc n])) \<longleftrightarrow> i \<le> e \<and> e \<le> n \<and> P e"
      by auto
    then show "e \<in> set xs \<longleftrightarrow> e \<in> set (filter P (rev [i..<Suc n]))"
      using assms(2) [of e] by blast
  qed
qed

lemma concat_singletons: "concat (map (\<lambda>e. if P e then [e] else []) xs) = filter P xs"
  by (induction xs) simp_all

lemma concat_skip: "concat (map (\<lambda>e. if e = j then [] else [e]) xs) = filter (\<lambda>e. e \<noteq> j) xs"
  by (induction xs) simp_all

lemma rep_0_1: "rep f 0 (Suc 0) j = filter (\<lambda>e. e \<noteq> j) (f j) @ [j]"
proof -
  have "(\<lambda>ja. if ja = j then [] else rep f (0 - 1) 0 ja) = (\<lambda>e. if e = j then [] else [e])"
    by (rule ext) simp
  then show ?thesis
    by (simp add: concat_skip)
qed

lemma rx_ends_Digit_eta:
  "rx_ends ic Digit s = (\<lambda>a. if a < length s \<and> is_digit (s ! a) then [Suc a] else [])"
  by (rule ext) simp

lemma rx_ends_WordB_eta:
  "rx_ends ic WordB s = (\<lambda>e. if is_boundary s e then [e] else [])"
  by (rule ext) simp

lemma rep_digit_1_3:
  "rep (rx_ends ic Digit s) 1 3 i =
     (if i < length s \<and> is_digit (s ! i)
      then (if Suc i < length s \<and> is_digit (s ! Suc i)
            then (if Suc (Suc i) < length s \<and> is_digit (s ! Suc (Suc i))
                  then [Suc (Suc (Suc i))] else []) @ [Suc (Suc i)]
            else []) @ [Suc i]
      else [])"
  by (simp add: eval_nat_numeral)

lemma fraction_ends:
  "rx_ends False fraction_rx s j =
     (if j < length s \<and> s ! j = CHR ''.'' \<and> Suc j < length s \<and> is_digit (s ! Suc j)
      then star (\<lambda>a. if a < length s \<and> is_digit (s ! a) then [Suc a] else []) (length s)
             (Suc (Suc j))
      else [])"
  by (auto simp: fraction_rx_def rx_ends_Digit_eta)

lemma fraction_ends_sorted: "sorted_wrt (>) (rx_ends False fraction_rx s j)"
  by (simp add: fraction_ends star_digit)

lemma in_fraction_ends:
  "e \<in> set (rx_ends False fraction_rx s j) \<longleftrightarrow>
     j < length s \<and> s ! j = CHR ''.'' \<and> Suc j < e \<and> spec_all_digits s (Suc j) e"
proof (cases "Suc j < e")
  case True
  then show ?thesis
    by (simp add: fraction_ends star_digit all_digits_first [of "Suc j" e])
next
  case False
  then show ?thesis
    by (simp add: fraction_ends star_digit)
qed

text \<open>The ends of \<^verbatim>\<open>(?:\.\d+)?\b\<close> from a position.\<close>

lemma tail_ends:
  "rx_ends False marks_tail_rx s j =
     filter (is_boundary s) (rx_ends False fraction_rx s j @ [j])"
proof -
  have "filter (\<lambda>e. e \<noteq> j) (rx_ends False fraction_rx s j) = rx_ends False fraction_rx s j"
    by (rule filter_True) (simp add: in_fraction_ends)
  then show ?thesis
    by (simp add: marks_tail_rx_def rep_0_1 rx_ends_WordB_eta concat_singletons del: rep.simps)
qed

lemma tail_ends_sorted: "sorted_wrt (>) (rx_ends False marks_tail_rx s j)"
  unfolding tail_ends
proof (rule sorted_wrt_filter)
  show "sorted_wrt (>) (rx_ends False fraction_rx s j @ [j])"
    by (simp add: sorted_wrt_append fraction_ends_sorted in_fraction_ends)
qed

lemma in_tail_ends:
  "e \<in> set (rx_ends False marks_tail_rx s j) \<longleftrightarrow>
     is_boundary s e \<and>
     (e = j \<or> (j < length s \<and> s ! j = CHR ''.'' \<and> Suc j < e \<and> spec_all_digits s (Suc j) e))"
  unfolding tail_ends by (simp add: in_fraction_ends) blast

lemma not_boundary_between_words:
  "j < length s \<Longrightarrow> is_word_char (s ! j) \<Longrightarrow> Suc j < length s \<Longrightarrow> is_word_char (s ! Suc j) \<Longrightarrow>
   \<not> is_boundary s (Suc j)"
  by (simp add: is_boundary_def)

lemma tail_ends_after_digit:
  assumes "j < length s" "is_digit (s ! j)" "Suc j < length s" "is_digit (s ! Suc j)"
  shows "rx_ends False marks_tail_rx s (Suc j) = []"
proof -
  have "\<not> is_boundary s (Suc j)"
    using assms by (intro not_boundary_between_words is_digit_word)
  moreover have "rx_ends False fraction_rx s (Suc j) = []"
    using assms(4) by (auto simp: fraction_ends dest: is_digit_not_point)
  ultimately show ?thesis
    unfolding tail_ends by simp
qed

lemma marks_ends:
  "rx_ends False marks_rx s i =
     (if is_boundary s i
      then concat (map (rx_ends False marks_tail_rx s) (rep (rx_ends False Digit s) 1 3 i))
      else [])"
  unfolding marks_rx_def by (simp only: rx_ends.simps) simp

lemma marks_ends_cases:
  "rx_ends False marks_rx s i =
     (if is_boundary s i \<and> i < length s \<and> is_digit (s ! i)
      then (if Suc i < length s \<and> is_digit (s ! Suc i)
            then (if Suc (Suc i) < length s \<and> is_digit (s ! Suc (Suc i))
                  then rx_ends False marks_tail_rx s (Suc (Suc (Suc i)))
                  else rx_ends False marks_tail_rx s (Suc (Suc i)))
            else rx_ends False marks_tail_rx s (Suc i))
      else [])"
proof (cases "is_boundary s i \<and> i < length s \<and> is_digit (s ! i)")
  case False
  then show ?thesis
    unfolding marks_ends rep_digit_1_3 by auto
next
  case d0: True
  show ?thesis
  proof (cases "Suc i < length s \<and> is_digit (s ! Suc i)")
    case False
    with d0 show ?thesis
      unfolding marks_ends rep_digit_1_3 by auto
  next
    case d1: True
    have e1: "rx_ends False marks_tail_rx s (Suc i) = []"
      using d0 d1 by (simp add: tail_ends_after_digit)
    show ?thesis
    proof (cases "Suc (Suc i) < length s \<and> is_digit (s ! Suc (Suc i))")
      case False
      with d0 d1 e1 show ?thesis
        unfolding marks_ends rep_digit_1_3 by auto
    next
      case d2: True
      have e2: "rx_ends False marks_tail_rx s (Suc (Suc i)) = []"
        using d1 d2 by (simp add: tail_ends_after_digit)
      from d0 d1 d2 e1 e2 show ?thesis
        unfolding marks_ends rep_digit_1_3 by auto
    qed
  qed
qed

lemma marks_ends_sorted: "sorted_wrt (>) (rx_ends False marks_rx s i)"
  unfolding marks_ends_cases by (simp add: tail_ends_sorted)

lemma tail_after_digit_empty:
  assumes "j < length s" "is_digit (s ! j)" "Suc j < length s" "is_digit (s ! Suc j)"
  shows "\<not> (is_boundary s e \<and>
    (e = Suc j \<or> (Suc j < length s \<and> s ! Suc j = CHR ''.'' \<and> Suc (Suc j) < e \<and>
       spec_all_digits s (Suc (Suc j)) e)))"
proof -
  have "e \<notin> set (rx_ends False marks_tail_rx s (Suc j))"
    using tail_ends_after_digit [OF assms] by simp
  then show ?thesis
    unfolding in_tail_ends .
qed

lemma score_token_iff:
  "spec_score_token s i e \<longleftrightarrow>
     is_boundary s i \<and> is_boundary s e \<and>
     (\<exists>j. (j = Suc i \<or> j = Suc (Suc i) \<or> j = Suc (Suc (Suc i))) \<and> spec_all_digits s i j \<and>
        (e = j \<or> (j < length s \<and> s ! j = CHR ''.'' \<and> Suc j < e \<and> spec_all_digits s (Suc j) e)))"
  unfolding spec_score_token_def by (simp add: eval_nat_numeral) blast

lemma score_token_cases:
  "spec_score_token s i e \<longleftrightarrow>
     is_boundary s i \<and> i < length s \<and> is_digit (s ! i) \<and>
     (e \<in> set (rx_ends False marks_tail_rx s (Suc i)) \<or>
      Suc i < length s \<and> is_digit (s ! Suc i) \<and>
      (e \<in> set (rx_ends False marks_tail_rx s (Suc (Suc i))) \<or>
       Suc (Suc i) < length s \<and> is_digit (s ! Suc (Suc i)) \<and>
       e \<in> set (rx_ends False marks_tail_rx s (Suc (Suc (Suc i))))))"
proof -
  have 1: "spec_all_digits s i (Suc i) \<longleftrightarrow> i < length s \<and> is_digit (s ! i)"
    by (simp add: all_digits_Suc all_digits_refl)
  have 2: "spec_all_digits s i (Suc (Suc i)) \<longleftrightarrow>
      (i < length s \<and> is_digit (s ! i)) \<and> Suc i < length s \<and> is_digit (s ! Suc i)"
    by (simp add: all_digits_Suc [of s i "Suc i"] 1)
  have 3: "spec_all_digits s i (Suc (Suc (Suc i))) \<longleftrightarrow>
      ((i < length s \<and> is_digit (s ! i)) \<and> Suc i < length s \<and> is_digit (s ! Suc i)) \<and>
      Suc (Suc i) < length s \<and> is_digit (s ! Suc (Suc i))"
    by (simp add: all_digits_Suc [of s i "Suc (Suc i)"] 2)
  have ex3: "(\<exists>j. (j = a \<or> j = b \<or> j = c) \<and> P j) \<longleftrightarrow> P a \<or> P b \<or> P c" for a b c :: nat and P
    by blast
  show ?thesis
    unfolding score_token_iff ex3 1 2 3 in_tail_ends by blast
qed

lemma in_marks_ends: "e \<in> set (rx_ends False marks_rx s i) \<longleftrightarrow> spec_score_token s i e"
proof (cases "is_boundary s i \<and> i < length s \<and> is_digit (s ! i)")
  case False
  then show ?thesis
    unfolding marks_ends_cases score_token_cases by auto
next
  case d0: True
  show ?thesis
  proof (cases "Suc i < length s \<and> is_digit (s ! Suc i)")
    case False
    with d0 show ?thesis
      unfolding marks_ends_cases score_token_cases by auto
  next
    case d1: True
    have e1: "rx_ends False marks_tail_rx s (Suc i) = []"
      using d0 d1 by (simp add: tail_ends_after_digit)
    show ?thesis
    proof (cases "Suc (Suc i) < length s \<and> is_digit (s ! Suc (Suc i))")
      case False
      with d0 d1 e1 show ?thesis
        unfolding marks_ends_cases score_token_cases by auto
    next
      case d2: True
      have e2: "rx_ends False marks_tail_rx s (Suc (Suc i)) = []"
        using d1 d2 by (simp add: tail_ends_after_digit)
      from d0 d1 d2 e1 e2 show ?thesis
        unfolding marks_ends_cases score_token_cases by auto
    qed
  qed
qed

lemma tail_ends_range:
  assumes "e \<in> set (rx_ends False marks_tail_rx s j)" "j \<le> length s"
  shows "j \<le> e \<and> e \<le> length s"
proof -
  from assms(1) have "e = j \<or> (Suc j < e \<and> spec_all_digits s (Suc j) e)"
    unfolding in_tail_ends by blast
  then show ?thesis
    using assms(2) all_digits_le [of s "Suc j" e] by auto
qed

lemma score_token_range:
  assumes "spec_score_token s i e"
  shows "i \<le> e \<and> e \<le> length s"
proof -
  from assms have d0: "i < length s"
    and c: "e \<in> set (rx_ends False marks_tail_rx s (Suc i)) \<or>
      Suc i < length s \<and> (e \<in> set (rx_ends False marks_tail_rx s (Suc (Suc i))) \<or>
       Suc (Suc i) < length s \<and> e \<in> set (rx_ends False marks_tail_rx s (Suc (Suc (Suc i)))))"
    unfolding score_token_cases by blast+
  from c show ?thesis
  proof (elim disjE conjE)
    assume "e \<in> set (rx_ends False marks_tail_rx s (Suc i))"
    from tail_ends_range [OF this] d0 show ?thesis by simp
  next
    assume "Suc i < length s" "e \<in> set (rx_ends False marks_tail_rx s (Suc (Suc i)))"
    from tail_ends_range [OF this(2)] this(1) show ?thesis by simp
  next
    assume "Suc (Suc i) < length s" "e \<in> set (rx_ends False marks_tail_rx s (Suc (Suc (Suc i))))"
    from tail_ends_range [OF this(2)] this(1) show ?thesis by simp
  qed
qed

lemma marks_ends_eq:
  "rx_ends False marks_rx s i = filter (spec_score_token s i) (rev [i..<Suc (length s)])"
proof (rule ends_eq_filter [OF marks_ends_sorted])
  fix e
  show "e \<in> set (rx_ends False marks_rx s i) \<longleftrightarrow> i \<le> e \<and> e \<le> length s \<and> spec_score_token s i e"
    using score_token_range [of s i e] unfolding in_marks_ends by blast
qed



lemma substring_Cons:
  assumes "i < length s" "i < e"
  shows "substring s i e = s ! i # substring s (Suc i) e"
proof -
  from assms(2) obtain k where k: "e - i = Suc k" "e - Suc i = k"
    by (cases "e - i") auto
  from assms(1) have "drop i s = s ! i # drop (Suc i) s"
    by (rule Cons_nth_drop_Suc [symmetric])
  then show ?thesis
    by (simp add: substring_def k)
qed




lemma substring_self: "substring s i i = []"
  by (simp add: substring_def)


lemma substring_two:
  assumes "Suc (Suc i) \<le> length s"
  shows "substring s i (Suc (Suc i)) = [s ! i, s ! Suc i]"
  using assms by (simp add: substring_Cons substring_self)









lemma first_some_concat:
  assumes "\<And>i. i \<in> set js \<Longrightarrow> L i = F i"
  shows "first_some (map (\<lambda>i. case L i of [] \<Rightarrow> None | e # _ \<Rightarrow> Some (g i e)) js) =
    (case concat (map (\<lambda>i. map (\<lambda>e. (i, e)) (F i)) js) of
       [] \<Rightarrow> None | (i, e) # _ \<Rightarrow> Some (g i e))"
  using assms
proof (induction js)
  case Nil
  show ?case by simp
next
  case (Cons j js)
  then have eq: "L j = F j" and IH: "first_some (map (\<lambda>i. case L i of [] \<Rightarrow> None | e # _ \<Rightarrow> Some (g i e)) js) =
    (case concat (map (\<lambda>i. map (\<lambda>e. (i, e)) (F i)) js) of
       [] \<Rightarrow> None | (i, e) # _ \<Rightarrow> Some (g i e))"
    by simp_all
  show ?case
  proof (cases "F j")
    case Nil
    with eq IH show ?thesis by simp
  next
    case (Cons e es)
    with eq show ?thesis by simp
  qed
qed

text \<open>
  The result of \<^verbatim>\<open>match\<close> with either expression is the first token of the kind the
  expression describes.
\<close>

lemma js_match_marks: "js_match False marks_rx s = spec_first_token (spec_score_token s) s"
  unfolding js_match_def match_at_def spec_first_token_def
  by (rule first_some_concat) (rule marks_ends_eq)


section \<open>Facts about the classifier\<close>

lemma str_includes_iff:
  "str_includes s t \<longleftrightarrow> (\<exists>i\<le>length s. take (length t) (drop i s) = t)"
proof (induction s)
  case Nil
  show ?case by auto
next
  case (Cons c cs)
  have "(\<exists>i\<le>length (c # cs). take (length t) (drop i (c # cs)) = t) \<longleftrightarrow>
        take (length t) (c # cs) = t \<or> (\<exists>i\<le>length cs. take (length t) (drop i cs) = t)"
  proof
    assume "\<exists>i\<le>length (c # cs). take (length t) (drop i (c # cs)) = t"
    then obtain i where i: "i \<le> length (c # cs)" "take (length t) (drop i (c # cs)) = t"
      by blast
    show "take (length t) (c # cs) = t \<or> (\<exists>i\<le>length cs. take (length t) (drop i cs) = t)"
    proof (cases i)
      case 0
      with i show ?thesis by simp
    next
      case (Suc j)
      with i have "j \<le> length cs" "take (length t) (drop j cs) = t" by simp_all
      then show ?thesis by blast
    qed
  next
    assume "take (length t) (c # cs) = t \<or> (\<exists>i\<le>length cs. take (length t) (drop i cs) = t)"
    then show "\<exists>i\<le>length (c # cs). take (length t) (drop i (c # cs)) = t"
    proof
      assume "take (length t) (c # cs) = t"
      then have "0 \<le> length (c # cs) \<and> take (length t) (drop 0 (c # cs)) = t" by simp
      then show ?thesis by blast
    next
      assume "\<exists>i\<le>length cs. take (length t) (drop i cs) = t"
      then obtain i where "i \<le> length cs" "take (length t) (drop i cs) = t" by blast
      then have "Suc i \<le> length (c # cs) \<and> take (length t) (drop (Suc i) (c # cs)) = t"
        by simp
      then show ?thesis by blast
    qed
  qed
  with Cons show ?case by (simp add: starts_with_def)
qed

text \<open>\<^verbatim>\<open>includes\<close> is the test for a substring.\<close>

lemma str_includes_append: "str_includes s t \<longleftrightarrow> (\<exists>u v. s = u @ t @ v)"
proof
  assume "str_includes s t"
  then obtain i where "i \<le> length s" "take (length t) (drop i s) = t"
    unfolding str_includes_iff by blast
  then have "s = take i s @ t @ drop (length t) (drop i s)"
    by (metis append_take_drop_id)
  then show "\<exists>u v. s = u @ t @ v" by blast
next
  assume "\<exists>u v. s = u @ t @ v"
  then obtain u v where "s = u @ t @ v" by blast
  then have "length u \<le> length s \<and> take (length t) (drop (length u) s) = t" by simp
  then show "str_includes s t" unfolding str_includes_iff by blast
qed

lemma has_token_includes:
  assumes "spec_has_token s t"
  shows "str_includes s t"
proof -
  from assms obtain i where "i + length t \<le> length s" "substring s i (i + length t) = t"
    unfolding spec_has_token_def list_ex_iff by blast
  then have "i \<le> length s \<and> take (length t) (drop i s) = t"
    by (simp add: substring_def)
  then show ?thesis
    unfolding str_includes_iff by blast
qed

lemma greeting_neq:
  "greeting_reply \<noteq> wellbeing_reply" "greeting_reply \<noteq> prompt_reply"
  "greeting_reply \<noteq> default_reply" "greeting_reply \<noteq> found_reply m c sugs"
  "greeting_reply \<noteq> not_found_reply m c"
  by (simp_all add: greeting_reply_def wellbeing_reply_def prompt_reply_def default_reply_def
      found_reply_def not_found_reply_def)

text \<open>
  The rules of \<^verbatim>\<open>generateAIResponse\<close> with the two captures read: element 1 is read
  only where both matches are not \<^verbatim>\<open>null\<close>, so \<open>capture\<close> never fails there.
\<close>

lemma generateAIResponse_rules:
  "generateAIResponse cat userInput =
     (let input = toLowerCase userInput
      in if str_includes input ''hi'' \<or> str_includes input ''hello'' \<or> str_includes input ''hey''
         then Inr greeting_reply
         else if str_includes input ''how are you'' \<or> str_includes input ''how do you do''
         then Inr wellbeing_reply
         else (case (js_match False marks_rx input, js_match True category_rx input) of
                 (Some m, Some c) \<Rightarrow>
                   (let sugs = findCollegesByMarks cat (parseFloat m) (toUpperCase c)
                    in if sugs \<noteq> [] then Inr (found_reply (parseFloat m) (toUpperCase c) sugs)
                       else Inr (not_found_reply (parseFloat m) (toUpperCase c)))
               | _ \<Rightarrow>
                   if str_includes input ''college'' \<or> str_includes input ''engineering'' \<or>
                      str_includes input ''cutoff''
                   then Inr prompt_reply else Inr default_reply))"
  by (auto simp: generateAIResponse_def Let_def split: option.splits)

section \<open>Facts about the tokens of the specification\<close>

lemma in_pairs_filter: "(i, e) \<in> set (map (\<lambda>e. (j, e)) (filter Q xs)) \<Longrightarrow> i = j \<and> Q e"
  by (induction xs) (auto split: if_splits)

lemma in_concat_map: "x \<in> set (concat (map f xs)) \<longleftrightarrow> (\<exists>y\<in>set xs. x \<in> set (f y))"
  by (induction xs) simp_all

lemma first_token_Some:
  assumes "spec_first_token P s = Some m"
  shows "\<exists>i e. P i e \<and> m = substring s i e"
proof -
  let ?f = "\<lambda>i. map (\<lambda>e. (i, e)) (filter (P i) (rev [i..<Suc (length s)]))"
  from assms obtain i e xs where xs: "concat (map ?f [0..<Suc (length s)]) = (i, e) # xs"
    and m: "m = substring s i e"
    unfolding spec_first_token_def by (auto split: list.splits)
  have "(i, e) \<in> set (concat (map ?f [0..<Suc (length s)]))" unfolding xs by simp
  then obtain j where "(i, e) \<in> set (?f j)"
    unfolding in_concat_map by blast
  then have "P i e" using in_pairs_filter [of i e j "P j"] by blast
  with m show ?thesis by blast
qed


lemma filter_desc_head:
  assumes "filter Q (rev [i..<Suc n]) = e # es"
  shows "i \<le> e \<and> e \<le> n \<and> Q e \<and> (\<forall>e'. e < e' \<and> e' \<le> n \<longrightarrow> \<not> Q e')"
proof -
  from assms obtain us vs where split: "rev [i..<Suc n] = us @ e # vs"
    and us: "\<forall>u\<in>set us. \<not> Q u" and Qe: "Q e"
    unfolding filter_eq_Cons_iff by blast
  have "e \<in> set (rev [i..<Suc n])" unfolding split by simp
  then have range: "i \<le> e" "e \<le> n" by auto
  have desc: "sorted_wrt (>) (us @ e # vs)"
    unfolding split [symmetric] by (simp add: sorted_wrt_rev del: upt_Suc)
  have "\<not> Q e'" if "e < e'" "e' \<le> n" for e'
  proof -
    from that range have "e' \<in> set (rev [i..<Suc n])" by auto
    then have "e' \<in> set us \<or> e' = e \<or> e' \<in> set vs" unfolding split by auto
    moreover have "e' \<noteq> e" using that by simp
    moreover have "e' \<notin> set vs"
      using desc that by (auto simp: sorted_wrt_append)
    ultimately show ?thesis using us by blast
  qed
  with range Qe show ?thesis by blast
qed

lemma concat_map_head:
  assumes "concat (map f js) = x # xs"
  obtains js1 j js2 ys where "js = js1 @ j # js2" "\<forall>k\<in>set js1. f k = []" "f j = x # ys"
  using assms
proof (induction js arbitrary: thesis)
  case Nil
  then show ?case by simp
next
  case (Cons j js)
  show ?case
  proof (cases "f j")
    case Nil
    with Cons.prems(2) have "concat (map f js) = x # xs" by simp
    then obtain js1 k js2 ys where
      "js = js1 @ k # js2" "\<forall>k\<in>set js1. f k = []" "f k = x # ys"
      using Cons.IH by blast
    with Nil have "j # js = (j # js1) @ k # js2" "\<forall>k\<in>set (j # js1). f k = []" "f k = x # ys"
      by simp_all
    then show ?thesis by (rule Cons.prems(1))
  next
    case (Cons y ys)
    with Cons.prems(2) have "f j = x # ys" by simp
    then have "j # js = [] @ j # js" "\<forall>k\<in>set []. f k = []" "f j = x # ys"
      by simp_all
    then show ?thesis by (rule Cons.prems(1))
  qed
qed

text \<open>
  \<open>spec_first_token\<close> is what its name says: the token it returns starts at the least
  position where a token starts and is the longest token that starts there.
\<close>

lemma first_token_leftmost_longest:
  assumes "spec_first_token P s = Some m"
  shows "\<exists>i e. i \<le> e \<and> e \<le> length s \<and> P i e \<and> m = substring s i e \<and>
           (\<forall>i' e'. i' \<le> e' \<and> e' \<le> length s \<and> P i' e' \<longrightarrow> i < i' \<or> (i' = i \<and> e' \<le> e))"
proof -
  let ?n = "length s"
  let ?f = "\<lambda>i. map (\<lambda>e. (i, e)) (filter (P i) (rev [i..<Suc ?n]))"
  from assms obtain i e xs where xs: "concat (map ?f [0..<Suc ?n]) = (i, e) # xs"
    and m: "m = substring s i e"
    unfolding spec_first_token_def by (auto split: list.splits simp del: upt_Suc)
  from xs obtain js1 j js2 ys where
    split: "[0..<Suc ?n] = js1 @ j # js2" and empty: "\<forall>k\<in>set js1. ?f k = []"
    and head: "?f j = (i, e) # ys"
    by (rule concat_map_head)
  from head have ji: "j = i" and fe: "\<exists>es. filter (P i) (rev [i..<Suc ?n]) = e # es"
    by (auto simp: map_eq_Cons_conv simp del: upt_Suc)
  from fe obtain es where "filter (P i) (rev [i..<Suc ?n]) = e # es" by blast
  from filter_desc_head [OF this]
  have e: "i \<le> e" "e \<le> ?n" "P i e" and longest: "\<forall>e'. e < e' \<and> e' \<le> ?n \<longrightarrow> \<not> P i e'"
    by blast+
  have asc: "sorted_wrt (<) (js1 @ i # js2)"
    unfolding ji [symmetric] split [symmetric] by (rule sorted_wrt_upt)
  have before: "\<not> P i' e'" if "i' < i" "i' \<le> e'" "e' \<le> ?n" for i' e'
  proof -
    from that e have "i' \<in> set [0..<Suc ?n]" by auto
    then have "i' \<in> set js1 \<or> i' = i \<or> i' \<in> set js2" unfolding split ji by auto
    moreover have "i' \<notin> set js2" using asc that by (auto simp: sorted_wrt_append)
    ultimately have "i' \<in> set js1" using that by auto
    with empty have "filter (P i') (rev [i'..<Suc ?n]) = []" by simp
    moreover have "e' \<in> set (rev [i'..<Suc ?n])" using that by auto
    ultimately show ?thesis
      unfolding filter_empty_conv by blast
  qed
  have "i < i' \<or> (i' = i \<and> e' \<le> e)" if "i' \<le> e'" "e' \<le> ?n" "P i' e'" for i' e'
  proof (cases "i' < i")
    case True
    with before that show ?thesis by blast
  next
    case False
    show ?thesis
    proof (cases "i' = i")
      case True
      with longest that have "\<not> e < e'" by blast
      with True show ?thesis by simp
    next
      case False
      with \<open>\<not> i' < i\<close> show ?thesis by simp
    qed
  qed
  with e m show ?thesis by blast
qed

lemma first_token_None:
  "spec_first_token P s = None \<longleftrightarrow> (\<forall>i e. i \<le> e \<and> e \<le> length s \<longrightarrow> \<not> P i e)"
proof -
  let ?n = "length s"
  let ?f = "\<lambda>i. map (\<lambda>e. (i, e)) (filter (P i) (rev [i..<Suc ?n]))"
  have "spec_first_token P s = None \<longleftrightarrow> concat (map ?f [0..<Suc ?n]) = []"
  proof (cases "concat (map ?f [0..<Suc ?n])")
    case Nil
    then show ?thesis unfolding spec_first_token_def by (simp only: list.case simp_thms)
  next
    case (Cons p ps)
    then show ?thesis unfolding spec_first_token_def
      by (cases p) (simp only: list.case prod.case option.distinct list.distinct simp_thms)
  qed
  also have "\<dots> \<longleftrightarrow> (\<forall>i\<in>set [0..<Suc ?n]. filter (P i) (rev [i..<Suc ?n]) = [])"
    by (simp only: concat_eq_Nil_conv set_map ball_simps(9) map_is_Nil_conv)
  also have "\<dots> \<longleftrightarrow> (\<forall>i e. i \<le> e \<and> e \<le> ?n \<longrightarrow> \<not> P i e)"
    unfolding filter_empty_conv by (auto simp: less_Suc_eq_le simp del: upt_Suc)
  finally show ?thesis .
qed

lemma substring_append:
  assumes "i \<le> j" "j \<le> e"
  shows "substring s i e = substring s i j @ substring s j e"
proof -
  have "e - i = (j - i) + (e - j)" using assms by simp
  moreover have "drop (j - i) (drop i s) = drop j s" using assms by simp
  ultimately show ?thesis
    unfolding substring_def by (simp only: take_add)
qed

lemma all_digits_substring:
  assumes "spec_all_digits s a b" "a \<le> b"
  shows "list_all is_digit (substring s a b) \<and> length (substring s a b) = b - a"
proof (cases "a = b")
  case True
  then show ?thesis by (simp add: substring_def)
next
  case False
  with assms have le: "b \<le> length s" by (intro all_digits_le [of s a b]) simp_all
  then have len: "length (substring s a b) = b - a"
    using assms(2) by (simp add: substring_def)
  have "is_digit (substring s a b ! k)" if "k < b - a" for k
  proof -
    have "substring s a b ! k = s ! (a + k)"
      using that le by (simp add: substring_def)
    moreover have "is_digit (s ! (a + k))"
      using assms(1) that unfolding all_digits_iff by simp
    ultimately show ?thesis by simp
  qed
  with len show ?thesis by (simp add: list_all_length)
qed

text \<open>
  The text of a numeric token is one to three digits, followed by nothing or by a point
  and at least one digit; \<open>parseFloat\<close> gives the number this decimal numeral denotes.
\<close>

lemma score_token_text:
  assumes "spec_score_token s i e"
  shows "\<exists>ds fs. ds \<noteq> [] \<and> length ds \<le> 3 \<and> list_all is_digit ds \<and> list_all is_digit fs \<and>
           (substring s i e = ds \<or> (fs \<noteq> [] \<and> substring s i e = ds @ CHR ''.'' # fs))"
proof -
  from assms obtain j where j: "j = Suc i \<or> j = Suc (Suc i) \<or> j = Suc (Suc (Suc i))"
    and dig: "spec_all_digits s i j"
    and rest: "e = j \<or>
      (j < length s \<and> s ! j = CHR ''.'' \<and> Suc j < e \<and> spec_all_digits s (Suc j) e)"
    unfolding score_token_iff by blast
  from j have ij: "i \<le> j" "i < j" by auto
  from all_digits_substring [OF dig ij(1)] j
  have ds: "list_all is_digit (substring s i j)" "substring s i j \<noteq> []"
    "length (substring s i j) \<le> 3"
    by auto
  from rest show ?thesis
  proof
    assume "e = j"
    with ds have "substring s i j \<noteq> [] \<and> length (substring s i j) \<le> 3 \<and>
        list_all is_digit (substring s i j) \<and> list_all is_digit [] \<and>
        substring s i e = substring s i j"
      by simp
    then show ?thesis by blast
  next
    assume r: "j < length s \<and> s ! j = CHR ''.'' \<and> Suc j < e \<and> spec_all_digits s (Suc j) e"
    then have fs: "list_all is_digit (substring s (Suc j) e)" "substring s (Suc j) e \<noteq> []"
      using all_digits_substring [of s "Suc j" e] by auto
    have "substring s i e = substring s i j @ substring s j e"
      using ij r by (intro substring_append) simp_all
    also have "substring s j e = s ! j # substring s (Suc j) e"
      using r by (intro substring_Cons) simp_all
    finally have "substring s i e = substring s i j @ CHR ''.'' # substring s (Suc j) e"
      using r by simp
    with ds fs show ?thesis by blast
  qed
qed

lemma parseFloat_digits:
  assumes "list_all is_digit ds"
  shows "parseFloat ds = real (nat_of_digits ds)"
proof -
  from assms have tw: "takeWhile is_digit ds = ds" and dw: "dropWhile is_digit ds = []"
    by (simp_all add: list_all_iff)
  show ?thesis
    unfolding parseFloat_def Let_def tw dw by simp
qed

lemma parseFloat_point:
  assumes "list_all is_digit ds" "list_all is_digit fs"
  shows "parseFloat (ds @ CHR ''.'' # fs) =
    real (nat_of_digits ds) + real (nat_of_digits fs) / 10 ^ length fs"
proof -
  have np: "\<not> is_digit CHR ''.''" by (simp add: is_digit_def)
  from assms(1) have tw: "takeWhile is_digit (ds @ CHR ''.'' # fs) = ds"
    and dw: "dropWhile is_digit (ds @ CHR ''.'' # fs) = CHR ''.'' # fs"
    using np by (simp_all add: list_all_iff takeWhile_append2 dropWhile_append2)
  from assms(2) have tf: "takeWhile is_digit fs = fs"
    by (simp add: list_all_iff)
  show ?thesis
    unfolding parseFloat_def Let_def tw dw by (simp only: list.case tf refl if_True)
qed

lemma marks_capture:
  assumes "js_match False marks_rx s = Some m"
  shows "\<exists>ds fs. ds \<noteq> [] \<and> length ds \<le> 3 \<and> list_all is_digit ds \<and> list_all is_digit fs \<and>
           (m = ds \<and> parseFloat m = real (nat_of_digits ds) \<or>
            fs \<noteq> [] \<and> m = ds @ CHR ''.'' # fs \<and>
            parseFloat m = real (nat_of_digits ds) + real (nat_of_digits fs) / 10 ^ length fs)"
proof -
  from assms obtain i e where "spec_score_token s i e" "m = substring s i e"
    unfolding js_match_marks using first_token_Some by blast
  with score_token_text [of s i e] obtain ds fs where
    d: "ds \<noteq> []" "length ds \<le> 3" "list_all is_digit ds" "list_all is_digit fs"
    and m: "m = ds \<or> (fs \<noteq> [] \<and> m = ds @ CHR ''.'' # fs)"
    by auto
  from m show ?thesis
  proof
    assume "m = ds"
    with d parseFloat_digits [of ds] show ?thesis by blast
  next
    assume "fs \<noteq> [] \<and> m = ds @ CHR ''.'' # fs"
    with d parseFloat_point [of ds fs] show ?thesis by blast
  qed
qed

section \<open>The example scenarios of the specification\<close>

lemma example_scenarios:
  "generateAIResponse example_catalog ''I scored 185 marks in BC category'' =
     Inr (found_reply 185 ''BC'' (findCollegesByMarks example_catalog 185 ''BC''))"
  "generateAIResponse example_catalog ''hello 185'' = Inr greeting_reply"
  "generateAIResponse example_catalog ''My cutoff is 50 and I'm in OC category'' =
     Inr (not_found_reply 50 ''OC'')"
  "generateAIResponse example_catalog ''tell me about colleges'' = Inr prompt_reply"
  "generateAIResponse example_catalog ''xyz'' = Inr default_reply"
  "generateAIResponse example_catalog ''I am 18 and scored 190'' = Inr default_reply"
  by code_simp+

section \<open>The claims about the matcher\<close>

text \<open>
  C1, as amended. For every score, every category and every branch of every college of
  the catalog: if the branch's cutoffs hold a number other than 0 for the category and
  the score is at least that number, then the sorted list that
  \<^verbatim>\<open>findCollegesByMarks\<close> truncates to ten contains the suggestion with the names of the
  college and the branch, that cutoff and the address of the college.
\<close>

theorem C1_qualifying_branch_suggested:
  assumes "c \<in> set tnea_colleges" and "b \<in> set (branches c)"
    and "cutoffs_2024 b category = Some (JNumber k)" and "k \<noteq> 0" and "k \<le> marks"
  shows "\<lparr>sug_college_name = college_name c, sug_branch_name = branch_name b,
           cutoff = k, sug_address = address c\<rparr>
         \<in> set (sort_suggestions (collect tnea_colleges marks category))"
  unfolding set_sort_suggestions in_collect using assms by blast

theorem C1_qualifying_branch_suggested_witness:
  "hd example_catalog \<in> set example_catalog \<and>
   hd (branches (hd example_catalog)) \<in> set (branches (hd example_catalog)) \<and>
   cutoffs_2024 (hd (branches (hd example_catalog))) ''BC'' = Some (JNumber 180) \<and>
   (180::real) \<noteq> 0 \<and> (180::real) \<le> 185 \<and>
   \<lparr>sug_college_name = ''College A'', sug_branch_name = ''CSE'',
     cutoff = 180, sug_address = ''Chennai''\<rparr>
     \<in> set (sort_suggestions (collect example_catalog 185 ''BC''))"
  using C1_qualifying_branch_suggested
    [of "hd example_catalog" example_catalog "hd (branches (hd example_catalog))" "''BC''" 180 185]
  by (simp add: example_catalog_def)

text \<open>
  C1 as the specification states it fails for a cutoff of 0: the branch has a cutoff for
  the category and the score 5 is at least 0, but the matcher collects nothing.
\<close>

theorem C1_zero_cutoff_counterexample:
  "hd zero_catalog \<in> set zero_catalog \<and>
   hd (branches (hd zero_catalog)) \<in> set (branches (hd zero_catalog)) \<and>
   cutoffs_2024 (hd (branches (hd zero_catalog))) ''OC'' = Some (JNumber 0) \<and>
   (0::real) \<le> 5 \<and>
   \<lparr>sug_college_name = ''College Z'', sug_branch_name = ''CIVIL'',
     cutoff = 0, sug_address = ''Salem''\<rparr>
     \<notin> set (sort_suggestions (collect zero_catalog 5 ''OC'')) \<and>
   sort_suggestions (collect zero_catalog 5 ''OC'') = []"
  by (simp add: zero_catalog_def collect_def visit_college_def visit_branch_def
      sort_suggestions_def)

text \<open>
  C3. For all scores and categories, every suggestion in the list that
  \<^verbatim>\<open>findCollegesByMarks\<close> returns has a cutoff that the score reaches.
\<close>

theorem C3_cutoff_within_score:
  "\<forall>x\<in>set (findCollegesByMarks tnea_colleges marks category). cutoff x \<le> marks"
proof
  fix x
  assume "x \<in> set (findCollegesByMarks tnea_colleges marks category)"
  then have "x \<in> set (sort_suggestions (collect tnea_colleges marks category))"
    unfolding findCollegesByMarks_def by (rule in_set_takeD)
  then have "x \<in> set (collect tnea_colleges marks category)"
    by (simp add: set_sort_suggestions)
  then show "cutoff x \<le> marks"
    unfolding in_collect by auto
qed

theorem C3_cutoff_within_score_witness:
  "map cutoff (findCollegesByMarks example_catalog 185 ''BC'') = [185, 185, 180] \<and>
   list_all (\<lambda>x. cutoff x \<le> 185) (findCollegesByMarks example_catalog 185 ''BC'')"
proof -
  have "map cutoff (findCollegesByMarks example_catalog 185 ''BC'') = [185, 185, 180]"
    by code_simp
  with C3_cutoff_within_score [of example_catalog 185 "''BC''"] show ?thesis
    by (simp add: list_all_iff)
qed

text \<open>
  C4. For every score and category, the list that \<^verbatim>\<open>findCollegesByMarks\<close> returns is
  sorted by cutoff, never increasing, and has at most ten elements.
\<close>

theorem C4_sorted_and_at_most_ten:
  "sorted_wrt (\<lambda>a b. cutoff a \<ge> cutoff b) (findCollegesByMarks tnea_colleges marks category) \<and>
   length (findCollegesByMarks tnea_colleges marks category) \<le> 10"
proof
  have "sorted_wrt (\<lambda>a b. cutoff a \<ge> cutoff b)
          (sort_suggestions (collect tnea_colleges marks category))"
    by (rule sorted_sort_suggestions)
  then show "sorted_wrt (\<lambda>a b. cutoff a \<ge> cutoff b)
          (findCollegesByMarks tnea_colleges marks category)"
    unfolding findCollegesByMarks_def by (rule sorted_wrt_take)
  show "length (findCollegesByMarks tnea_colleges marks category) \<le> 10"
    by (simp add: findCollegesByMarks_def)
qed

theorem C4_sorted_and_at_most_ten_witness:
  "length (collect long_catalog 12 ''OC'') = 12 \<and>
   map cutoff (findCollegesByMarks long_catalog 12 ''OC'') = [12, 11, 10, 9, 8, 7, 6, 5, 4, 3] \<and>
   sorted_wrt (\<lambda>a b. cutoff a \<ge> cutoff b) (findCollegesByMarks long_catalog 12 ''OC'') \<and>
   length (findCollegesByMarks long_catalog 12 ''OC'') \<le> 10"
proof -
  have "length (collect long_catalog 12 ''OC'') = 12"
    by code_simp
  moreover have "map cutoff (findCollegesByMarks long_catalog 12 ''OC'') =
      [12, 11, 10, 9, 8, 7, 6, 5, 4, 3]"
    by code_simp
  ultimately show ?thesis
    using C4_sorted_and_at_most_ten [of long_catalog 12 "''OC''"] by simp
qed



text \<open>
  C10. For every score that is at least 0 and every category, no suggestion that
  \<^verbatim>\<open>findCollegesByMarks\<close> collects or returns has the cutoff 0: the loop body leaves the
  list of suggestions as it is at a branch whose cutoff for the category is 0.
\<close>

theorem C10_zero_cutoff_skipped:
  assumes "0 \<le> marks"
  shows "(\<forall>x\<in>set (collect tnea_colleges marks category). cutoff x \<noteq> 0) \<and>
         (\<forall>x\<in>set (findCollegesByMarks tnea_colleges marks category). cutoff x \<noteq> 0) \<and>
         (cutoffs_2024 b category = Some (JNumber 0) \<longrightarrow>
            visit_branch marks category c acc b = acc)"
proof (intro conjI)
  show 1: "\<forall>x\<in>set (collect tnea_colleges marks category). cutoff x \<noteq> 0"
    by (auto simp: in_collect)
  show "\<forall>x\<in>set (findCollegesByMarks tnea_colleges marks category). cutoff x \<noteq> 0"
  proof
    fix x
    assume "x \<in> set (findCollegesByMarks tnea_colleges marks category)"
    then have "x \<in> set (sort_suggestions (collect tnea_colleges marks category))"
      unfolding findCollegesByMarks_def by (rule in_set_takeD)
    with 1 show "cutoff x \<noteq> 0"
      by (simp add: set_sort_suggestions)
  qed
  show "cutoffs_2024 b category = Some (JNumber 0) \<longrightarrow>
          visit_branch marks category c acc b = acc"
    by (simp add: visit_branch_def)
qed

theorem C10_zero_cutoff_skipped_witness:
  "(0::real) \<le> 200 \<and>
   map cutoff (collect example_catalog 200 ''OC'') = [190, 171.5] \<and>
   map cutoff (findCollegesByMarks example_catalog 200 ''OC'') = [190, 171.5] \<and>
   list_all (\<lambda>x. cutoff x \<noteq> 0) (collect example_catalog 200 ''OC'') \<and>
   list_all (\<lambda>x. cutoff x \<noteq> 0) (findCollegesByMarks example_catalog 200 ''OC'') \<and>
   cutoffs_2024 (branches (hd example_catalog) ! 1) ''OC'' = Some (JNumber 0) \<and>
   visit_branch 200 ''OC'' (hd example_catalog) [] (branches (hd example_catalog) ! 1) = []"
proof -
  have h: "(0::real) \<le> 200" by simp
  have e1: "map cutoff (collect example_catalog 200 ''OC'') = [190, 171.5]"
    by code_simp
  have e2: "map cutoff (findCollegesByMarks example_catalog 200 ''OC'') = [190, 171.5]"
    by code_simp
  have e3: "cutoffs_2024 (branches (hd example_catalog) ! 1) ''OC'' = Some (JNumber 0)"
    by (simp add: example_catalog_def)
  from C10_zero_cutoff_skipped [OF h, of example_catalog "''OC''"
      "branches (hd example_catalog) ! 1" "hd example_catalog" "[]"] h e1 e2 e3
  show ?thesis by (simp add: list_all_iff)
qed

section \<open>The claims about the classifier\<close>

text \<open>
  C2, as amended. For every input text, \<^verbatim>\<open>generateAIResponse\<close> returns the fixed
  greeting reply, which has no suggestions, exactly when the lower-cased text contains
  \<^verbatim>\<open>hi\<close>, \<^verbatim>\<open>hello\<close> or \<^verbatim>\<open>hey\<close> as a substring.
\<close>

theorem C2_greeting_iff_substring:
  "(generateAIResponse tnea_colleges userInput = Inr greeting_reply \<longleftrightarrow>
      str_includes (toLowerCase userInput) ''hi'' \<or>
      str_includes (toLowerCase userInput) ''hello'' \<or>
      str_includes (toLowerCase userInput) ''hey'') \<and>
   suggestions greeting_reply = None"
proof
  show "generateAIResponse tnea_colleges userInput = Inr greeting_reply \<longleftrightarrow>
      str_includes (toLowerCase userInput) ''hi'' \<or>
      str_includes (toLowerCase userInput) ''hello'' \<or>
      str_includes (toLowerCase userInput) ''hey''"
    unfolding generateAIResponse_rules
    by (auto simp: Let_def greeting_neq greeting_neq [symmetric] split: option.splits)
  show "suggestions greeting_reply = None"
    by (simp add: greeting_reply_def)
qed

theorem C2_greeting_iff_substring_witness:
  "str_includes (toLowerCase ''This is my score'') ''hi'' \<and>
   generateAIResponse example_catalog ''This is my score'' = Inr greeting_reply \<and>
   \<not> str_includes (toLowerCase ''My score is 185, BC'') ''hi'' \<and>
   \<not> str_includes (toLowerCase ''My score is 185, BC'') ''hello'' \<and>
   \<not> str_includes (toLowerCase ''My score is 185, BC'') ''hey'' \<and>
   generateAIResponse example_catalog ''My score is 185, BC'' \<noteq> Inr greeting_reply \<and>
   suggestions greeting_reply = None"
proof -
  have 1: "str_includes (toLowerCase ''This is my score'') ''hi''"
    by code_simp
  have 2: "\<not> str_includes (toLowerCase ''My score is 185, BC'') ''hi''"
    "\<not> str_includes (toLowerCase ''My score is 185, BC'') ''hello''"
    "\<not> str_includes (toLowerCase ''My score is 185, BC'') ''hey''"
    by code_simp+
  from C2_greeting_iff_substring [of example_catalog "''This is my score''"]
    C2_greeting_iff_substring [of example_catalog "''My score is 185, BC''"] 1 2
  show ?thesis by blast
qed

text \<open>
  C2 as the specification states it fails: in the text below \<^verbatim>\<open>hi\<close> occurs inside the
  word \<^verbatim>\<open>which\<close> only, no greeting is a token of the text, and the reply is the greeting.
\<close>

theorem C2_substring_counterexample:
  "generateAIResponse example_catalog ''Which college for 185 in BC'' = Inr greeting_reply \<and>
   \<not> spec_has_token (toLowerCase ''Which college for 185 in BC'') ''hi'' \<and>
   \<not> spec_has_token (toLowerCase ''Which college for 185 in BC'') ''hello'' \<and>
   \<not> spec_has_token (toLowerCase ''Which college for 185 in BC'') ''hey''"
  by code_simp

text \<open>
  C5. For every input text whose lower-cased form contains a greeting as a token, a
  numeric token and a category token, \<^verbatim>\<open>generateAIResponse\<close> returns the greeting
  reply, whatever the catalog is, and the reply has no suggestions.
\<close>

theorem C5_greeting_precedes_score:
  assumes "spec_has_token (toLowerCase userInput) ''hi'' \<or>
           spec_has_token (toLowerCase userInput) ''hello'' \<or>
           spec_has_token (toLowerCase userInput) ''hey''"
    and "spec_first_token (spec_score_token (toLowerCase userInput)) (toLowerCase userInput) = Some m"
    and "spec_first_token (spec_category_token (toLowerCase userInput)) (toLowerCase userInput) = Some c"
  shows "generateAIResponse tnea_colleges userInput = Inr greeting_reply \<and>
         suggestions greeting_reply = None"
proof -
  from assms(1) have "str_includes (toLowerCase userInput) ''hi'' \<or>
      str_includes (toLowerCase userInput) ''hello'' \<or>
      str_includes (toLowerCase userInput) ''hey''"
    by (blast intro: has_token_includes)
  then show ?thesis
    by (simp add: generateAIResponse_def greeting_reply_def)
qed

theorem C5_greeting_precedes_score_witness:
  "spec_has_token (toLowerCase ''Hi, 185 in BC'') ''hi'' \<and>
   spec_first_token (spec_score_token (toLowerCase ''Hi, 185 in BC'')) (toLowerCase ''Hi, 185 in BC'') =
     Some ''185'' \<and>
   spec_first_token (spec_category_token (toLowerCase ''Hi, 185 in BC'')) (toLowerCase ''Hi, 185 in BC'') =
     Some ''bc'' \<and>
   findCollegesByMarks example_catalog 185 ''BC'' \<noteq> [] \<and>
   generateAIResponse example_catalog ''Hi, 185 in BC'' = Inr greeting_reply \<and>
   suggestions greeting_reply = None"
proof -
  have 1: "spec_has_token (toLowerCase ''Hi, 185 in BC'') ''hi''"
    by code_simp
  have 2: "spec_first_token (spec_score_token (toLowerCase ''Hi, 185 in BC''))
      (toLowerCase ''Hi, 185 in BC'') = Some ''185''"
    by code_simp
  have 3: "spec_first_token (spec_category_token (toLowerCase ''Hi, 185 in BC''))
      (toLowerCase ''Hi, 185 in BC'') = Some ''bc''"
    by code_simp
  have 4: "findCollegesByMarks example_catalog 185 ''BC'' \<noteq> []"
    by code_simp
  from C5_greeting_precedes_score [OF disjI1 [OF 1] 2 3, of example_catalog] 1 2 3 4
  show ?thesis by blast
qed

text \<open>
  C6. For every catalog and every input text, the empty text among them,
  \<^verbatim>\<open>generateAIResponse\<close> returns a reply: no read of a capture fails. The empty text
  gets the default reply.
\<close>

theorem C6_total:
  "(\<exists>r. generateAIResponse tnea_colleges userInput = Inr r) \<and>
   generateAIResponse tnea_colleges [] = Inr default_reply"
proof
  show "\<exists>r. generateAIResponse tnea_colleges userInput = Inr r"
    unfolding generateAIResponse_rules by (auto simp: Let_def split: option.splits)
  show "generateAIResponse tnea_colleges [] = Inr default_reply"
    by code_simp
qed

theorem C6_total_witness:
  "generateAIResponse example_catalog ''185 bC'' =
     Inr (found_reply 185 ''BC'' (findCollegesByMarks example_catalog 185 ''BC'')) \<and>
   (\<exists>r. generateAIResponse example_catalog ''185 bC'' = Inr r) \<and>
   generateAIResponse example_catalog [] = Inr default_reply"
proof -
  have "generateAIResponse example_catalog ''185 bC'' =
     Inr (found_reply 185 ''BC'' (findCollegesByMarks example_catalog 185 ''BC''))"
    by code_simp
  with C6_total [of example_catalog "''185 bC''"] show ?thesis
    by blast
qed





end
